theory Spec2Isabelle
  imports Main "HOL-Library.Word" "HOL-Library.Sublist"
begin

section \<open>Sequence containers and their iterators\<close>

text \<open>
  The combinators of \<^verbatim>\<open>pstd.hpp\<close> are templates over any container \<^verbatim>\<open>C<A...>\<close>
  with \<^verbatim>\<open>begin()\<close>, \<^verbatim>\<open>end()\<close> and, for \<^verbatim>\<open>remove\<close>, an \<^verbatim>\<open>erase\<close> whose
  result can be decremented. A container is modelled by the list of its elements in
  iteration order (a vector, a deque or a list), and an iterator by its offset from
  \<^verbatim>\<open>begin()\<close>. The offset is an \<open>int\<close>: the source also forms the position before
  \<^verbatim>\<open>begin()\<close>, which is \<open>- 1\<close> here.

  Reading a position outside the elements is undefined behaviour in C++; the model
  makes it a \<open>fault\<close>, so that every theorem of the form \<open>f \<dots> = Inr \<dots>\<close> also says
  that the run never does such a read.
\<close>

datatype fault =
    Deref_out_of_range    \<comment> \<open>\<^verbatim>\<open>*iter\<close> where \<^verbatim>\<open>iter\<close> is not at an element\<close>
  | Erase_out_of_range    \<comment> \<open>\<^verbatim>\<open>cont.erase(iter)\<close> where \<^verbatim>\<open>iter\<close> is not at an element\<close>
  | Front_of_empty        \<comment> \<open>\<^verbatim>\<open>front()\<close> or \<^verbatim>\<open>pop_front()\<close> of an empty container\<close>
  | Replace_out_of_range  \<comment> \<open>\<^verbatim>\<open>std::out_of_range\<close> of \<^verbatim>\<open>std::string::replace\<close>\<close>

type_synonym iterator = int

definition cbegin :: "'a list \<Rightarrow> iterator" where
  "cbegin cont = 0"

definition cend :: "'a list \<Rightarrow> iterator" where
  "cend cont = int (length cont)"

definition deref :: "'a list \<Rightarrow> iterator \<Rightarrow> fault + 'a" where
  "deref cont iter =
     (if 0 \<le> iter \<and> iter < int (length cont) then Inr (cont ! nat iter)
      else Inl Deref_out_of_range)"

text \<open>
  \<^verbatim>\<open>cont.erase(iter)\<close> takes the element at \<^verbatim>\<open>iter\<close> out and returns the position of
  the element that followed it, which is the same offset in the shorter container.
\<close>

definition erase :: "'a list \<Rightarrow> iterator \<Rightarrow> fault + ('a list \<times> iterator)" where
  "erase cont iter =
     (if 0 \<le> iter \<and> iter < int (length cont)
      then Inr (take (nat iter) cont @ drop (Suc (nat iter)) cont, iter)
      else Inl Erase_out_of_range)"

definition front :: "'a list \<Rightarrow> fault + 'a" where
  "front cont = (case cont of [] \<Rightarrow> Inl Front_of_empty | x # _ \<Rightarrow> Inr x)"

definition pop_front :: "'a list \<Rightarrow> fault + 'a list" where
  "pop_front cont = (case cont of [] \<Rightarrow> Inl Front_of_empty | _ # rest \<Rightarrow> Inr rest)"

text \<open>
  What a call leaves behind: the container object the combinator worked on, the value
  it returned, and the state of the callback. A \<^verbatim>\<open>std::function<void(T)>\<close> visitor
  is a function \<open>'a \<Rightarrow> 's \<Rightarrow> 's\<close> on whatever state \<open>'s\<close> it captures, a
  \<^verbatim>\<open>std::function<bool(T)>\<close> predicate a function \<open>'a \<Rightarrow> 's \<Rightarrow> bool \<times> 's\<close>. The
  container is not part of \<open>'s\<close>: a callback cannot touch the container it is run on.
\<close>

record ('a, 'r, 's) outcome =
  container :: "'a list"
  returned :: 'r
  env :: 's

section \<open>each\<close>

text \<open>
  \<^verbatim>\<open>
  for (auto iter = cont.begin(); iter != cont.end(); ++iter)
    func(*iter);
  \<close>
\<close>

function each_loop ::
  "'a list \<Rightarrow> ('a \<Rightarrow> 's \<Rightarrow> 's) \<Rightarrow> iterator \<Rightarrow> 's \<Rightarrow> fault + ('a, unit, 's) outcome"
where
  "each_loop cont func iter s =
     (if iter = cend cont then Inr \<lparr>container = cont, returned = (), env = s\<rparr>
      else case deref cont iter of
             Inl e \<Rightarrow> Inl e
           | Inr x \<Rightarrow> each_loop cont func (iter + 1) (func x s))"
  by pat_completeness auto
termination
  by (relation "measure (\<lambda>(cont, func, iter, s). nat (int (length cont) - iter))")
     (auto simp: deref_def cend_def split: if_splits)

declare each_loop.simps [simp del]

definition each ::
  "'a list \<Rightarrow> ('a \<Rightarrow> 's \<Rightarrow> 's) \<Rightarrow> 's \<Rightarrow> fault + ('a, unit, 's) outcome"
where
  "each cont func s = each_loop cont func (cbegin cont) s"

text \<open>
  The overload whose visitor also takes an \<^verbatim>\<open>int\<close>:
  \<^verbatim>\<open>
  auto begin = std::begin(cont);
  for (auto iter = begin; iter != cont.end(); ++iter) {
    auto i = std::distance(begin, iter);
    func(*iter, i);
  }
  \<close>
  \<^verbatim>\<open>std::distance\<close> returns the iterator's difference type, which holds every
  offset inside a container; the call \<^verbatim>\<open>func(*iter, i)\<close> converts it to the
  visitor's \<^verbatim>\<open>int\<close> parameter, 32 bits wide and read as two's complement
  (\<open>sint\<close>), keeping the low 32 bits.
\<close>

type_synonym c_int = "32 word"

definition distance :: "iterator \<Rightarrow> iterator \<Rightarrow> int" where
  "distance first_it last_it = last_it - first_it"

definition to_c_int :: "int \<Rightarrow> c_int" where
  "to_c_int i = word_of_int i"

function each_indexed_loop ::
  "'a list \<Rightarrow> ('a \<Rightarrow> c_int \<Rightarrow> 's \<Rightarrow> 's) \<Rightarrow> iterator \<Rightarrow> iterator \<Rightarrow> 's
     \<Rightarrow> fault + ('a, unit, 's) outcome"
where
  "each_indexed_loop cont func begin_it iter s =
     (if iter = cend cont then Inr \<lparr>container = cont, returned = (), env = s\<rparr>
      else case deref cont iter of
             Inl e \<Rightarrow> Inl e
           | Inr x \<Rightarrow>
               (let i = distance begin_it iter
                in each_indexed_loop cont func begin_it (iter + 1) (func x (to_c_int i) s)))"
  by pat_completeness auto
termination
  by (relation "measure (\<lambda>(cont, func, begin_it, iter, s). nat (int (length cont) - iter))")
     (auto simp: deref_def cend_def split: if_splits)

declare each_indexed_loop.simps [simp del]

definition each_indexed ::
  "'a list \<Rightarrow> ('a \<Rightarrow> c_int \<Rightarrow> 's \<Rightarrow> 's) \<Rightarrow> 's \<Rightarrow> fault + ('a, unit, 's) outcome"
where
  "each_indexed cont func s =
     (let begin_it = cbegin cont in each_indexed_loop cont func begin_it begin_it s)"

section \<open>until\<close>

text \<open>
  \<^verbatim>\<open>
  for (auto iter = cont.begin(); iter != cont.end(); ++iter) {
    auto i = func(*iter);
    if (i)
      return !0;
  }
  return !1;
  \<close>
\<close>

function until_loop ::
  "'a list \<Rightarrow> ('a \<Rightarrow> 's \<Rightarrow> bool \<times> 's) \<Rightarrow> iterator \<Rightarrow> 's \<Rightarrow> fault + ('a, bool, 's) outcome"
where
  "until_loop cont func iter s =
     (if iter = cend cont then Inr \<lparr>container = cont, returned = False, env = s\<rparr>
      else case deref cont iter of
             Inl e \<Rightarrow> Inl e
           | Inr x \<Rightarrow>
               (case func x s of
                  (i, s') \<Rightarrow>
                    if i then Inr \<lparr>container = cont, returned = True, env = s'\<rparr>
                    else until_loop cont func (iter + 1) s'))"
  by pat_completeness auto
termination
  by (relation "measure (\<lambda>(cont, func, iter, s). nat (int (length cont) - iter))")
     (auto simp: deref_def cend_def split: if_splits)

declare until_loop.simps [simp del]

definition until ::
  "'a list \<Rightarrow> ('a \<Rightarrow> 's \<Rightarrow> bool \<times> 's) \<Rightarrow> 's \<Rightarrow> fault + ('a, bool, 's) outcome"
where
  "until cont func s = until_loop cont func (cbegin cont) s"

section \<open>find\<close>

text \<open>
  \<^verbatim>\<open>
  for (auto iter = cont.begin(); iter != cont.end(); ++iter) {
    if (!func(*iter))
      continue;
    return *iter;
  }
  return {};
  \<close>
  The source's \<^verbatim>\<open>find\<close> is \<open>find_first\<close> here, \<open>find\<close> being a constant of HOL.
\<close>

function find_loop ::
  "'a list \<Rightarrow> ('a \<Rightarrow> 's \<Rightarrow> bool \<times> 's) \<Rightarrow> iterator \<Rightarrow> 's
     \<Rightarrow> fault + ('a, 'a option, 's) outcome"
where
  "find_loop cont func iter s =
     (if iter = cend cont then Inr \<lparr>container = cont, returned = None, env = s\<rparr>
      else case deref cont iter of
             Inl e \<Rightarrow> Inl e
           | Inr x \<Rightarrow>
               (case func x s of
                  (b, s') \<Rightarrow>
                    if \<not> b then find_loop cont func (iter + 1) s'
                    else (case deref cont iter of
                            Inl e \<Rightarrow> Inl e
                          | Inr y \<Rightarrow> Inr \<lparr>container = cont, returned = Some y, env = s'\<rparr>)))"
  by pat_completeness auto
termination
  by (relation "measure (\<lambda>(cont, func, iter, s). nat (int (length cont) - iter))")
     (auto simp: deref_def cend_def split: if_splits)

declare find_loop.simps [simp del]

definition find_first ::
  "'a list \<Rightarrow> ('a \<Rightarrow> 's \<Rightarrow> bool \<times> 's) \<Rightarrow> 's \<Rightarrow> fault + ('a, 'a option, 's) outcome"
where
  "find_first cont func s = find_loop cont func (cbegin cont) s"

section \<open>pop\<close>

text \<open>
  \<^verbatim>\<open>
  if (cont.size() == 0)
    return {};
  auto out = cont.front();
  cont.pop_front();
  return out;
  \<close>
\<close>

definition pop :: "'a list \<Rightarrow> fault + ('a, 'a option, unit) outcome" where
  "pop cont =
     (if length cont = 0 then Inr \<lparr>container = cont, returned = None, env = ()\<rparr>
      else case front cont of
             Inl e \<Rightarrow> Inl e
           | Inr out \<Rightarrow>
               (case pop_front cont of
                  Inl e \<Rightarrow> Inl e
                | Inr cont' \<Rightarrow> Inr \<lparr>container = cont', returned = Some out, env = ()\<rparr>))"

section \<open>remove\<close>

text \<open>
  Both overloads run the same loop; the first compares with \<^verbatim>\<open>!=\<close>, the second
  asks the predicate:
  \<^verbatim>\<open>
  for (auto iter = cont.begin(); iter != cont.end(); ++iter) {
    if (*iter != find)        // if (!func(*iter))
      continue;
    iter = --cont.erase(iter);
  }
  \<close>
  The statement \<^verbatim>\<open>iter = --cont.erase(iter)\<close> erases, then steps one position back
  from what \<^verbatim>\<open>erase\<close> returned, so that the loop's \<^verbatim>\<open>++iter\<close> arrives at the
  element that followed the erased one. When the erased element was the first one,
  \<^verbatim>\<open>erase\<close> returns \<^verbatim>\<open>begin()\<close> and the decrement leaves the container's range:
  C++ leaves that undefined. The usual implementations compute a position from which
  \<^verbatim>\<open>++\<close> comes back to \<^verbatim>\<open>begin()\<close> (the address before a vector's buffer, the
  sentinel node of a circular list); the model computes with the offset \<open>- 1\<close> in the
  same way and records in \<open>before_begin\<close> that the run did it.
\<close>

record ('a, 'r, 's) removal = "('a, 'r, 's) outcome" +
  before_begin :: bool

definition erase_step_back ::
  "'a list \<Rightarrow> iterator \<Rightarrow> fault + ('a list \<times> iterator \<times> bool)"
where
  "erase_step_back cont iter =
     (case erase cont iter of
        Inl e \<Rightarrow> Inl e
      | Inr (cont', next_it) \<Rightarrow> Inr (cont', next_it - 1, next_it = cbegin cont'))"

text \<open>
  The source's \<^verbatim>\<open>remove\<close> is \<open>remove_value\<close> and \<open>remove_if\<close> here, for its two
  overloads (\<open>remove\<close> is a constant of HOL), and the parameter \<^verbatim>\<open>find\<close> of the
  first is \<open>find_val\<close>.
\<close>

function remove_value_loop ::
  "'a list \<Rightarrow> 'a \<Rightarrow> iterator \<Rightarrow> bool \<Rightarrow> fault + ('a, unit, unit) removal"
where
  "remove_value_loop cont find_val iter bb =
     (if iter = cend cont
      then Inr \<lparr>container = cont, returned = (), env = (), before_begin = bb\<rparr>
      else case deref cont iter of
             Inl e \<Rightarrow> Inl e
           | Inr x \<Rightarrow>
               if x \<noteq> find_val then remove_value_loop cont find_val (iter + 1) bb
               else (case erase_step_back cont iter of
                       Inl e \<Rightarrow> Inl e
                     | Inr (cont', iter', b) \<Rightarrow>
                         remove_value_loop cont' find_val (iter' + 1) (bb \<or> b)))"
  by pat_completeness auto
termination
  by (relation "measure (\<lambda>(cont, find_val, iter, bb).
                   nat (int (length cont) - iter) + length cont)")
     (auto simp: deref_def cend_def erase_step_back_def erase_def
           split: if_splits sum.splits)

declare remove_value_loop.simps [simp del]

definition remove_value :: "'a list \<Rightarrow> 'a \<Rightarrow> fault + ('a, unit, unit) removal" where
  "remove_value cont find_val = remove_value_loop cont find_val (cbegin cont) False"

function remove_if_loop ::
  "'a list \<Rightarrow> ('a \<Rightarrow> 's \<Rightarrow> bool \<times> 's) \<Rightarrow> iterator \<Rightarrow> 's \<Rightarrow> bool
     \<Rightarrow> fault + ('a, unit, 's) removal"
where
  "remove_if_loop cont func iter s bb =
     (if iter = cend cont
      then Inr \<lparr>container = cont, returned = (), env = s, before_begin = bb\<rparr>
      else case deref cont iter of
             Inl e \<Rightarrow> Inl e
           | Inr x \<Rightarrow>
               (case func x s of
                  (r, s') \<Rightarrow>
                    if \<not> r then remove_if_loop cont func (iter + 1) s' bb
                    else (case erase_step_back cont iter of
                            Inl e \<Rightarrow> Inl e
                          | Inr (cont', iter', b) \<Rightarrow>
                              remove_if_loop cont' func (iter' + 1) s' (bb \<or> b))))"
  by pat_completeness auto
termination
  by (relation "measure (\<lambda>(cont, func, iter, s, bb).
                   nat (int (length cont) - iter) + length cont)")
     (auto simp: deref_def cend_def erase_step_back_def erase_def
           split: if_splits sum.splits)

declare remove_if_loop.simps [simp del]

definition remove_if ::
  "'a list \<Rightarrow> ('a \<Rightarrow> 's \<Rightarrow> bool \<times> 's) \<Rightarrow> 's \<Rightarrow> fault + ('a, unit, 's) removal"
where
  "remove_if cont func s = remove_if_loop cont func (cbegin cont) s False"

section \<open>Callbacks that record their calls\<close>

text \<open>
  To say on which elements, and in which order, a combinator calls its callback, the
  callback's state is the list of the arguments of its calls so far: \<open>recording\<close> is
  such a visitor, \<open>recording_indexed\<close> one that takes the index too, and
  \<open>logging p\<close> a predicate that answers as the pure predicate \<open>p\<close> does.
\<close>

definition recording :: "'a \<Rightarrow> 'a list \<Rightarrow> 'a list" where
  "recording x calls = calls @ [x]"

definition recording_indexed :: "'a \<Rightarrow> c_int \<Rightarrow> ('a \<times> int) list \<Rightarrow> ('a \<times> int) list" where
  "recording_indexed x i calls = calls @ [(x, sint i)]"

definition logging :: "('a \<Rightarrow> bool) \<Rightarrow> 'a \<Rightarrow> 'a list \<Rightarrow> bool \<times> 'a list" where
  "logging p x calls = (p x, calls @ [x])"

section \<open>replace and type\_name\<close>

text \<open>
  \<^verbatim>\<open>
  void replace(std::string &text, vstring from, vstring to) {
    auto i = text.find(from);
    if (i == EOF)
      return;
    text.replace(i, from.length(), to);
  }
  \<close>
  \<^verbatim>\<open>std::string::find\<close> and \<^verbatim>\<open>std::string::replace\<close> are the C++ library's, modelled
  as the standard describes them: \<open>str_find\<close> is the lowest position at which the
  needle starts in the text, as a 64-bit \<^verbatim>\<open>size_t\<close>, and \<^verbatim>\<open>npos\<close> (all bits set)
  when there is none; \<open>str_replace\<close> puts \<open>to\<close> in the place of the \<open>count\<close>
  characters from \<open>pos\<close> (or of those that are left), and throws when \<open>pos\<close> is
  beyond the end. \<^verbatim>\<open>EOF\<close> is the \<^verbatim>\<open>int\<close> \<open>- 1\<close> of \<^verbatim>\<open><cstdio>\<close>; the comparison
  \<^verbatim>\<open>i == EOF\<close> converts it to \<^verbatim>\<open>size_t\<close> by sign extension (\<open>scast\<close>).
\<close>

type_synonym size_t = "64 word"

definition npos :: size_t where
  "npos = - 1"

definition EOF :: c_int where
  "EOF = - 1"

fun find_from :: "string \<Rightarrow> string \<Rightarrow> nat \<Rightarrow> nat option" where
  "find_from needle [] pos = (if needle = [] then Some pos else None)"
| "find_from needle (c # cs) pos =
     (if prefix needle (c # cs) then Some pos else find_from needle cs (Suc pos))"

definition str_find :: "string \<Rightarrow> string \<Rightarrow> size_t" where
  "str_find text needle =
     (case find_from needle text 0 of Some xpos \<Rightarrow> of_nat xpos | None \<Rightarrow> npos)"

definition str_replace :: "string \<Rightarrow> nat \<Rightarrow> nat \<Rightarrow> string \<Rightarrow> fault + string" where
  "str_replace text pos count to =
     (if length text < pos then Inl Replace_out_of_range
      else Inr (take pos text @ to @ drop (pos + count) text))"

definition replace :: "string \<Rightarrow> string \<Rightarrow> string \<Rightarrow> fault + string" where
  "replace text from to =
     (let i = str_find text from
      in if i = scast EOF then Inr text
         else str_replace text (unat i) (length from) to)"

text \<open>
  \<^verbatim>\<open>type_name<T>()\<close> builds the name of \<^verbatim>\<open>T\<close> from what the compiler knows of it,
  which the model takes as parameters: the demangled name \<open>own\<close> (absent when
  \<^verbatim>\<open>abi::__cxa_demangle\<close> returns a null pointer), the mangled name
  \<^verbatim>\<open>typeid(type).name()\<close>, and the four type traits.
  \<^verbatim>\<open>
  std::string out = own != nullptr ? own.get() : typeid(type).name();
  if (std::is_const<type>::value)          out += " const";
  if (std::is_volatile<type>::value)       out += " volatile";
  if (std::is_lvalue_reference<T>::value)  out += "&";
  else if (std::is_rvalue_reference<T>::value) out += "&&";
  replace(out, "> >", ">>");
  return out;
  \<close>
\<close>

definition type_name ::
  "string option \<Rightarrow> string \<Rightarrow> bool \<Rightarrow> bool \<Rightarrow> bool \<Rightarrow> bool \<Rightarrow> fault + string"
where
  "type_name own mangled is_const is_volatile is_lvalue_reference is_rvalue_reference =
     (let out = (case own of Some demangled \<Rightarrow> demangled | None \<Rightarrow> mangled);
          out = (if is_const then out @ '' const'' else out);
          out = (if is_volatile then out @ '' volatile'' else out);
          out = (if is_lvalue_reference then out @ ''&''
                 else if is_rvalue_reference then out @ ''&&''
                 else out)
      in replace out ''> >'' ''>>'')"

section \<open>The loops, from any position\<close>

text \<open>
  Each loop is characterised from the position after a prefix \<open>pre\<close> of the container,
  by induction on the rest \<open>suf\<close>; the combinators start with the empty prefix.
\<close>

lemma deref_at [simp]: "deref (pre @ x # suf) (int (length pre)) = Inr x"
  by (simp add: deref_def)

lemma cend_append [simp]: "int (length pre) = cend (pre @ suf) \<longleftrightarrow> suf = []"
  by (simp add: cend_def)

lemma erase_step_back_at [simp]:
  "erase_step_back (pre @ x # suf) (int (length pre)) =
     Inr (pre @ suf, int (length pre) - 1, pre = [])"
  by (simp add: erase_step_back_def erase_def cbegin_def)

lemma each_loop_suffix:
  "each_loop (pre @ suf) func (int (length pre)) s =
     Inr \<lparr>container = pre @ suf, returned = (), env = fold func suf s\<rparr>"
proof (induction suf arbitrary: pre s)
  case Nil
  show ?case by (subst each_loop.simps) (simp add: cend_def)
next
  case (Cons x suf)
  have "each_loop (pre @ x # suf) func (int (length pre)) s =
          each_loop ((pre @ [x]) @ suf) func (int (length (pre @ [x]))) (func x s)"
    by (subst each_loop.simps) (simp add: add.commute)
  then show ?case using Cons.IH [of "pre @ [x]" "func x s"] by simp
qed

lemma each_indexed_loop_suffix:
  "each_indexed_loop (pre @ suf) func 0 (int (length pre)) s =
     Inr \<lparr>container = pre @ suf, returned = (),
          env = fold (\<lambda>(x, j). func x (to_c_int (int j)))
                  (zip suf [length pre ..< length pre + length suf]) s\<rparr>"
proof (induction suf arbitrary: pre s)
  case Nil
  show ?case by (subst each_indexed_loop.simps) (simp add: cend_def)
next
  case (Cons x suf)
  let ?s = "func x (to_c_int (int (length pre))) s"
  have step: "each_indexed_loop (pre @ x # suf) func 0 (int (length pre)) s =
          each_indexed_loop ((pre @ [x]) @ suf) func 0 (int (length (pre @ [x]))) ?s"
    by (subst each_indexed_loop.simps) (simp add: add.commute distance_def)
  have idx: "[length pre ..< length pre + length (x # suf)] =
          length pre # [length (pre @ [x]) ..< length (pre @ [x]) + length suf]"
    by (simp add: upt_conv_Cons del: upt_Suc)
  show ?case
    unfolding step idx Cons.IH [of "pre @ [x]" ?s] by simp
qed

lemma until_loop_suffix:
  "until_loop (pre @ suf) (logging p) (int (length pre)) calls =
     Inr \<lparr>container = pre @ suf, returned = (\<exists>x \<in> set suf. p x),
          env = calls @ takeWhile (\<lambda>x. \<not> p x) suf @ take 1 (dropWhile (\<lambda>x. \<not> p x) suf)\<rparr>"
proof (induction suf arbitrary: pre calls)
  case Nil
  show ?case by (subst until_loop.simps) (simp add: cend_def)
next
  case (Cons x suf)
  show ?case
  proof (cases "p x")
    case True
    then show ?thesis by (subst until_loop.simps) (simp add: logging_def)
  next
    case False
    then have "until_loop (pre @ x # suf) (logging p) (int (length pre)) calls =
          until_loop ((pre @ [x]) @ suf) (logging p) (int (length (pre @ [x]))) (calls @ [x])"
      by (subst until_loop.simps) (simp add: add.commute logging_def)
    then show ?thesis using Cons.IH [of "pre @ [x]" "calls @ [x]"] False by simp
  qed
qed

lemma find_loop_suffix:
  "find_loop (pre @ suf) (logging p) (int (length pre)) calls =
     Inr \<lparr>container = pre @ suf, returned = List.find p suf,
          env = calls @ takeWhile (\<lambda>x. \<not> p x) suf @ take 1 (dropWhile (\<lambda>x. \<not> p x) suf)\<rparr>"
proof (induction suf arbitrary: pre calls)
  case Nil
  show ?case by (subst find_loop.simps) (simp add: cend_def)
next
  case (Cons x suf)
  show ?case
  proof (cases "p x")
    case True
    then show ?thesis by (subst find_loop.simps) (simp add: logging_def)
  next
    case False
    then have "find_loop (pre @ x # suf) (logging p) (int (length pre)) calls =
          find_loop ((pre @ [x]) @ suf) (logging p) (int (length (pre @ [x]))) (calls @ [x])"
      by (subst find_loop.simps) (simp add: add.commute logging_def)
    then show ?thesis using Cons.IH [of "pre @ [x]" "calls @ [x]"] False by simp
  qed
qed

lemma remove_value_loop_suffix:
  "remove_value_loop (pre @ suf) v (int (length pre)) bb =
     Inr \<lparr>container = pre @ filter (\<lambda>y. y \<noteq> v) suf, returned = (), env = (),
          before_begin = (bb \<or> (pre = [] \<and> suf \<noteq> [] \<and> hd suf = v))\<rparr>"
proof (induction suf arbitrary: pre bb)
  case Nil
  show ?case by (subst remove_value_loop.simps) (simp add: cend_def)
next
  case (Cons x suf)
  show ?case
  proof (cases "x = v")
    case True
    then have "remove_value_loop (pre @ x # suf) v (int (length pre)) bb =
          remove_value_loop (pre @ suf) v (int (length pre)) (bb \<or> pre = [])"
      by (subst remove_value_loop.simps) simp
    then show ?thesis using Cons.IH [of pre "bb \<or> pre = []"] True by auto
  next
    case False
    then have "remove_value_loop (pre @ x # suf) v (int (length pre)) bb =
          remove_value_loop ((pre @ [x]) @ suf) v (int (length (pre @ [x]))) bb"
      by (subst remove_value_loop.simps) (simp add: add.commute)
    then show ?thesis using Cons.IH [of "pre @ [x]" bb] False by simp
  qed
qed

lemma remove_if_loop_suffix:
  "remove_if_loop (pre @ suf) (logging p) (int (length pre)) calls bb =
     Inr \<lparr>container = pre @ filter (\<lambda>y. \<not> p y) suf, returned = (), env = calls @ suf,
          before_begin = (bb \<or> (pre = [] \<and> suf \<noteq> [] \<and> p (hd suf)))\<rparr>"
proof (induction suf arbitrary: pre bb calls)
  case Nil
  show ?case by (subst remove_if_loop.simps) (simp add: cend_def)
next
  case (Cons x suf)
  show ?case
  proof (cases "p x")
    case True
    then have "remove_if_loop (pre @ x # suf) (logging p) (int (length pre)) calls bb =
          remove_if_loop (pre @ suf) (logging p) (int (length pre)) (calls @ [x]) (bb \<or> pre = [])"
      by (subst remove_if_loop.simps) (simp add: logging_def)
    then show ?thesis using Cons.IH [of pre "calls @ [x]" "bb \<or> pre = []"] True by auto
  next
    case False
    then have "remove_if_loop (pre @ x # suf) (logging p) (int (length pre)) calls bb =
          remove_if_loop ((pre @ [x]) @ suf) (logging p) (int (length (pre @ [x]))) (calls @ [x]) bb"
      by (subst remove_if_loop.simps) (simp add: add.commute logging_def)
    then show ?thesis using Cons.IH [of "pre @ [x]" "calls @ [x]" bb] False by simp
  qed
qed


lemma each_eq:
  "each cont func s = Inr \<lparr>container = cont, returned = (), env = fold func cont s\<rparr>"
  using each_loop_suffix [of "[]" cont func s] by (simp add: each_def cbegin_def)

lemma each_indexed_eq:
  "each_indexed cont func s =
     Inr \<lparr>container = cont, returned = (),
          env = fold (\<lambda>(x, j). func x (to_c_int (int j))) (zip cont [0 ..< length cont]) s\<rparr>"
  using each_indexed_loop_suffix [of "[]" cont func s]
  by (simp add: each_indexed_def cbegin_def)

lemma until_eq:
  "until cont (logging p) calls =
     Inr \<lparr>container = cont, returned = (\<exists>x \<in> set cont. p x),
          env = calls @ takeWhile (\<lambda>x. \<not> p x) cont @ take 1 (dropWhile (\<lambda>x. \<not> p x) cont)\<rparr>"
  using until_loop_suffix [of "[]" cont p calls] by (simp add: until_def cbegin_def)

lemma find_first_eq:
  "find_first cont (logging p) calls =
     Inr \<lparr>container = cont, returned = List.find p cont,
          env = calls @ takeWhile (\<lambda>x. \<not> p x) cont @ take 1 (dropWhile (\<lambda>x. \<not> p x) cont)\<rparr>"
  using find_loop_suffix [of "[]" cont p calls] by (simp add: find_first_def cbegin_def)

lemma remove_value_eq:
  "remove_value cont v =
     Inr \<lparr>container = filter (\<lambda>y. y \<noteq> v) cont, returned = (), env = (),
          before_begin = (cont \<noteq> [] \<and> hd cont = v)\<rparr>"
  using remove_value_loop_suffix [of "[]" cont v False]
  by (simp add: remove_value_def cbegin_def)

lemma remove_if_eq:
  "remove_if cont (logging p) calls =
     Inr \<lparr>container = filter (\<lambda>y. \<not> p y) cont, returned = (), env = calls @ cont,
          before_begin = (cont \<noteq> [] \<and> p (hd cont))\<rparr>"
  using remove_if_loop_suffix [of "[]" cont p calls False]
  by (simp add: remove_if_def cbegin_def)

subsection \<open>The first index at which a predicate holds\<close>

text \<open>
  A short-circuiting search calls its predicate on the elements up to and including the
  first one at which it holds, or on all of them when there is none.
\<close>

lemma first_index_prefix:
  "i < length cont \<Longrightarrow> p (cont ! i) \<Longrightarrow> (\<forall>j<i. \<not> p (cont ! j)) \<Longrightarrow>
     takeWhile (\<lambda>x. \<not> p x) cont = take i cont \<and>
     dropWhile (\<lambda>x. \<not> p x) cont = drop i cont"
proof (induction cont arbitrary: i)
  case Nil
  then show ?case by simp
next
  case (Cons x cont)
  show ?case
  proof (cases i)
    case 0
    with Cons.prems show ?thesis by simp
  next
    case (Suc k)
    with Cons.prems have "\<not> p x" by auto
    moreover have "takeWhile (\<lambda>x. \<not> p x) cont = take k cont \<and>
        dropWhile (\<lambda>x. \<not> p x) cont = drop k cont"
      using Cons.prems Suc by (intro Cons.IH) auto
    ultimately show ?thesis using Suc by simp
  qed
qed

lemma searched_calls:
  assumes "i < length cont" "p (cont ! i)" "\<forall>j<i. \<not> p (cont ! j)"
  shows "takeWhile (\<lambda>x. \<not> p x) cont @ take 1 (dropWhile (\<lambda>x. \<not> p x) cont) = take (Suc i) cont"
proof -
  have "take 1 (drop i cont) = [cont ! i]"
    using assms(1) by (simp add: take_Suc_conv_app_nth [of 0] Cons_nth_drop_Suc [symmetric])
  then show ?thesis
    using first_index_prefix [OF assms] assms(1) by (simp add: take_Suc_conv_app_nth)
qed

lemma unsearched_calls:
  assumes "\<forall>i<length cont. \<not> p (cont ! i)"
  shows "takeWhile (\<lambda>x. \<not> p x) cont @ take 1 (dropWhile (\<lambda>x. \<not> p x) cont) = cont"
proof -
  have none: "\<forall>x \<in> set cont. \<not> p x" using assms by (auto simp: in_set_conv_nth)
  then have tw: "takeWhile (\<lambda>x. \<not> p x) cont = cont"
    by (simp add: takeWhile_eq_all_conv)
  from none have dw: "dropWhile (\<lambda>x. \<not> p x) cont = []"
    by (simp add: dropWhile_eq_Nil_conv)
  show ?thesis unfolding tw dw by simp
qed

lemma find_first_index:
  assumes "i < length cont" "p (cont ! i)" "\<forall>j<i. \<not> p (cont ! j)"
  shows "List.find p cont = Some (cont ! i)"
  using assms by (auto simp: find_Some_iff)

subsection \<open>The container after a read-only traversal, for any callback\<close>

lemma until_loop_frame:
  "\<exists>r. until_loop (pre @ suf) func (int (length pre)) s = Inr r \<and> container r = pre @ suf"
proof (induction suf arbitrary: pre s)
  case Nil
  show ?case by (subst until_loop.simps) (simp add: cend_def)
next
  case (Cons x suf)
  obtain i s' where f: "func x s = (i, s')" by (cases "func x s")
  show ?case
  proof (cases i)
    case True
    with f show ?thesis by (subst until_loop.simps) simp
  next
    case False
    with f have "until_loop (pre @ x # suf) func (int (length pre)) s =
          until_loop ((pre @ [x]) @ suf) func (int (length (pre @ [x]))) s'"
      by (subst until_loop.simps) (simp add: add.commute)
    then show ?thesis using Cons.IH [of "pre @ [x]" s'] by simp
  qed
qed

lemma find_loop_frame:
  "\<exists>r. find_loop (pre @ suf) func (int (length pre)) s = Inr r \<and> container r = pre @ suf"
proof (induction suf arbitrary: pre s)
  case Nil
  show ?case by (subst find_loop.simps) (simp add: cend_def)
next
  case (Cons x suf)
  obtain b s' where f: "func x s = (b, s')" by (cases "func x s")
  show ?case
  proof (cases b)
    case True
    with f show ?thesis by (subst find_loop.simps) simp
  next
    case False
    with f have "find_loop (pre @ x # suf) func (int (length pre)) s =
          find_loop ((pre @ [x]) @ suf) func (int (length (pre @ [x]))) s'"
      by (subst find_loop.simps) (simp add: add.commute)
    then show ?thesis using Cons.IH [of "pre @ [x]" s'] by simp
  qed
qed

subsection \<open>Visitors that record their calls\<close>

lemma fold_recording: "fold recording xs calls = calls @ xs"
  by (induction xs arbitrary: calls) (simp_all add: recording_def)

lemma fold_recording_indexed:
  "fold (\<lambda>(x, j). recording_indexed x (to_c_int (int j))) ps calls =
     calls @ map (\<lambda>(x, j). (x, sint (to_c_int (int j)))) ps"
  by (induction ps arbitrary: calls) (auto simp: recording_indexed_def)

lemma each_indexed_calls:
  "each_indexed cont recording_indexed [] =
     Inr \<lparr>container = cont, returned = (),
          env = zip cont (map (\<lambda>j. sint (to_c_int (int j))) [0 ..< length cont])\<rparr>"
proof -
  have "map (\<lambda>(x, j). (x, sint (to_c_int (int j)))) (zip cont [0 ..< length cont]) =
        zip cont (map (\<lambda>j. sint (to_c_int (int j))) [0 ..< length cont])"
    by (simp add: zip_map2)
  then show ?thesis by (simp add: each_indexed_eq fold_recording_indexed)
qed

lemma sint_to_c_int: "j < 2 ^ 31 \<Longrightarrow> sint (to_c_int (int j)) = int j"
proof -
  assume "j < 2 ^ 31"
  then have "int j < 2 ^ 31" by (metis of_nat_less_numeral_power_cancel_iff)
  then have "signed_take_bit 31 (int j) = int j"
    by (simp add: signed_take_bit_int_eq_self)
  then show ?thesis by (simp add: to_c_int_def signed_of_nat)
qed

lemma sint_to_c_int_wraps: "sint (to_c_int (int (2 ^ 31))) = - (2 ^ 31)"
  by (simp add: to_c_int_def)

lemma each_indexed_beyond_int:
  assumes "length cont = n" and "2 ^ 31 < n"
  shows "each_indexed cont recording_indexed [] \<noteq>
           Inr \<lparr>container = cont, returned = (), env = zip cont (map int [0 ..< n])\<rparr>"
proof
  assume "each_indexed cont recording_indexed [] =
           Inr \<lparr>container = cont, returned = (), env = zip cont (map int [0 ..< n])\<rparr>"
  then have "zip cont (map (\<lambda>j. sint (to_c_int (int j))) [0 ..< n]) = zip cont (map int [0 ..< n])"
    using assms(1) by (simp add: each_indexed_calls)
  then have "map snd (zip cont (map (\<lambda>j. sint (to_c_int (int j))) [0 ..< n])) =
      map snd (zip cont (map int [0 ..< n]))"
    by simp
  then have "map (\<lambda>j. sint (to_c_int (int j))) [0 ..< n] = map int [0 ..< n]"
    using assms(1) by (simp only: map_snd_zip length_map length_upt diff_zero)
  then have "\<forall>j \<in> set [0 ..< n]. sint (to_c_int (int j)) = int j"
    by (simp only: map_eq_conv)
  moreover have "2 ^ 31 \<in> set [0 ..< n]"
    using assms(2) by simp
  ultimately have "sint (to_c_int (int (2 ^ 31))) = int (2 ^ 31)"
    by (rule bspec)
  then show False by (simp add: to_c_int_def)
qed

subsection \<open>The first occurrence of a needle in a text\<close>

lemma find_from_absent:
  "\<not> (\<exists>pre post. text = pre @ needle @ post) \<Longrightarrow> find_from needle text pos = None"
proof (induction "text" arbitrary: pos)
  case Nil
  then show ?case by auto
next
  case (Cons c cs)
  have "\<not> prefix needle (c # cs)"
    using Cons.prems by (metis append_Nil prefixE)
  moreover have "\<not> (\<exists>pre post. cs = pre @ needle @ post)"
    using Cons.prems by (metis append_Cons)
  ultimately show ?case using Cons.IH by simp
qed

lemma find_from_first:
  assumes "text = pre @ needle @ post"
    and "\<forall>pre' post'. text = pre' @ needle @ post' \<longrightarrow> length pre \<le> length pre'"
  shows "find_from needle text pos = Some (pos + length pre)"
  using assms
proof (induction pre arbitrary: "text" pos)
  case Nil
  then have "prefix needle text" by simp
  then show ?case by (cases "text") auto
next
  case (Cons c pre)
  have "\<not> prefix needle text"
  proof
    assume "prefix needle text"
    then obtain post' where "text = [] @ needle @ post'" by (auto elim: prefixE)
    with Cons.prems(2) have "length (c # pre) \<le> length ([] :: string)" by blast
    then show False by simp
  qed
  moreover have "find_from needle (pre @ needle @ post) (Suc pos) = Some (Suc pos + length pre)"
  proof (rule Cons.IH [OF refl], intro allI impI)
    fix pre' post' assume "pre @ needle @ post = pre' @ needle @ post'"
    then have "text = (c # pre') @ needle @ post'" using Cons.prems(1) by simp
    with Cons.prems(2) have "length (c # pre) \<le> length (c # pre')" by blast
    then show "length pre \<le> length pre'" by simp
  qed
  ultimately show ?case using Cons.prems(1) by simp
qed

lemma size_t_of_nat [simp]:
  "n < 2 ^ 64 - 1 \<Longrightarrow> (of_nat n :: size_t) \<noteq> scast EOF"
  "n < 2 ^ 64 - 1 \<Longrightarrow> unat (of_nat n :: size_t) = n"
proof -
  assume n: "n < 2 ^ 64 - 1"
  then show u: "unat (of_nat n :: size_t) = n"
    by (simp add: unat_of_nat)
  have "unat (scast EOF :: size_t) = 2 ^ 64 - 1"
    by (simp add: EOF_def unsigned_minus_1_eq_mask mask_eq_exp_minus_1)
  with u n show "(of_nat n :: size_t) \<noteq> scast EOF" by auto
qed

lemma replace_absent:
  "\<not> (\<exists>pre post. text = pre @ from @ post) \<Longrightarrow> replace text from to = Inr text"
  by (simp add: replace_def str_find_def find_from_absent npos_def EOF_def)

lemma replace_first:
  assumes "length text < 2 ^ 64 - 1"
    and "text = pre @ from @ post"
    and "\<forall>pre' post'. text = pre' @ from @ post' \<longrightarrow> length pre \<le> length pre'"
  shows "replace text from to = Inr (pre @ to @ post)"
proof -
  have "find_from from text 0 = Some (length pre)"
    using find_from_first [OF assms(2,3), of 0] by simp
  moreover have "length pre < 2 ^ 64 - 1" using assms(1,2) by simp
  ultimately show ?thesis
    using assms(2) by (simp add: replace_def str_find_def str_replace_def)
qed

section \<open>Properties of the combinators\<close>

text \<open>
  C1. \<^verbatim>\<open>remove(c, x)\<close> takes out every element equal to \<open>x\<close> and keeps the others
  in their order: the container it leaves is \<open>filter (\<lambda>y. y \<noteq> x) c\<close>. The predicate
  overload takes out exactly the elements at which \<open>p\<close> holds, and it is one pass from
  left to right: \<open>p\<close> is asked once for each element of the container, in order
  (\<open>env r = cont\<close>). On \<open>[1, 2, 1, 3]\<close> removing \<open>1\<close> leaves \<open>[2, 3]\<close>, and on
  \<open>[1, 2, 3, 4]\<close> removing the even elements leaves \<open>[1, 3]\<close>. Neither run reads
  outside the elements (the result is an \<open>Inr\<close>).
\<close>

theorem remove_filters:
  "(\<exists>r. remove_value cont x = Inr r \<and> container r = filter (\<lambda>y. y \<noteq> x) cont) \<and>
   (\<exists>r. remove_if cont (logging p) [] = Inr r \<and>
        container r = filter (\<lambda>y. \<not> p y) cont \<and> env r = cont) \<and>
   (\<exists>r. remove_value [1, 2, 1, 3 :: int] 1 = Inr r \<and> container r = [2, 3]) \<and>
   (\<exists>r. remove_if [1, 2, 3, 4 :: int] (logging even) [] = Inr r \<and> container r = [1, 3])"
  by (simp add: remove_value_eq remove_if_eq)

text \<open>
  C2. Erasing never skips the element that follows and never reads an erased or
  out-of-range position (C1), but when the match is at the first position the run
  steps out of the container's range: on \<open>[1, 2, 1, 3]\<close>, \<^verbatim>\<open>erase\<close> of the first
  element returns \<^verbatim>\<open>begin()\<close>, the decrement forms the position before it (offset
  \<open>- 1\<close>) and the loop's \<^verbatim>\<open>++iter\<close> steps from there. The same holds for the predicate
  overload. In general a run does so exactly when the container is not empty and its
  first element is one to remove.
\<close>

theorem remove_steps_before_begin:
  "(\<exists>r. remove_value cont x = Inr r \<and> (before_begin r \<longleftrightarrow> cont \<noteq> [] \<and> hd cont = x)) \<and>
   (\<exists>r. remove_if cont (logging p) [] = Inr r \<and>
        (before_begin r \<longleftrightarrow> cont \<noteq> [] \<and> p (hd cont))) \<and>
   remove_value [1, 2, 1, 3 :: int] 1 =
     Inr \<lparr>container = [2, 3], returned = (), env = (), before_begin = True\<rparr> \<and>
   remove_if [2, 1, 3, 4 :: int] (logging even) [] =
     Inr \<lparr>container = [1, 3], returned = (), env = [2, 1, 3, 4], before_begin = True\<rparr> \<and>
   erase_step_back [1, 2, 1, 3 :: int] (cbegin [1, 2, 1, 3 :: int]) = Inr ([2, 1, 3], - 1, True)"
proof (intro conjI)
  show "\<exists>r. remove_value cont x = Inr r \<and> (before_begin r \<longleftrightarrow> cont \<noteq> [] \<and> hd cont = x)"
    by (simp add: remove_value_eq)
  show "\<exists>r. remove_if cont (logging p) [] = Inr r \<and>
        (before_begin r \<longleftrightarrow> cont \<noteq> [] \<and> p (hd cont))"
    by (simp add: remove_if_eq)
  show "remove_value [1, 2, 1, 3 :: int] 1 =
     Inr \<lparr>container = [2, 3], returned = (), env = (), before_begin = True\<rparr>"
    by (simp add: remove_value_def remove_value_loop.simps cbegin_def cend_def deref_def
          erase_step_back_def erase_def)
  show "remove_if [2, 1, 3, 4 :: int] (logging even) [] =
     Inr \<lparr>container = [1, 3], returned = (), env = [2, 1, 3, 4], before_begin = True\<rparr>"
    by (simp add: remove_if_def remove_if_loop.simps logging_def cbegin_def cend_def
          deref_def erase_step_back_def erase_def)
  show "erase_step_back [1, 2, 1, 3 :: int] (cbegin [1, 2, 1, 3 :: int]) =
     Inr ([2, 1, 3], - 1, True)"
    by (simp add: cbegin_def erase_step_back_def erase_def)
qed

text \<open>
  C4. \<^verbatim>\<open>pop\<close> of a container \<open>a # rest\<close> returns \<open>a\<close> and leaves \<open>rest\<close>, which has
  one element less and, when the container was \<open>a # b # others\<close>, starts with \<open>b\<close>;
  \<^verbatim>\<open>pop\<close> of the empty container returns nothing and leaves it empty.
\<close>

theorem pop_front_element:
  "pop (a # rest) = Inr \<lparr>container = rest, returned = Some a, env = ()\<rparr> \<and>
   length rest = length (a # rest) - 1 \<and>
   pop (a # b # others) = Inr \<lparr>container = b # others, returned = Some a, env = ()\<rparr> \<and>
   pop ([] :: 'a list) = Inr \<lparr>container = [], returned = None, env = ()\<rparr>"
  by (simp add: pop_def front_def pop_front_def)

text \<open>
  C7. After \<^verbatim>\<open>each\<close> (either overload), \<^verbatim>\<open>until\<close> and \<^verbatim>\<open>find\<close>, with any
  callback, the container holds the same elements in the same order; \<^verbatim>\<open>remove\<close> and
  \<^verbatim>\<open>pop\<close> do change it (here on a container that starts with the removed value).
  \<^verbatim>\<open>each\<close> and \<^verbatim>\<open>until\<close> take the container by value, so the container of the
  outcome is their copy, and the caller's own is out of their reach.
\<close>

theorem readers_keep_container:
  "(\<exists>r. each cont visitor s = Inr r \<and> container r = cont) \<and>
   (\<exists>r. each_indexed cont visitor_i s = Inr r \<and> container r = cont) \<and>
   (\<exists>r. until cont func t = Inr r \<and> container r = cont) \<and>
   (\<exists>r. find_first cont func t = Inr r \<and> container r = cont) \<and>
   (\<exists>r. remove_value (x # xs) x = Inr r \<and> container r \<noteq> x # xs) \<and>
   (\<exists>r. pop (x # xs) = Inr r \<and> container r \<noteq> x # xs)"
proof -
  have "length (filter (\<lambda>y. y \<noteq> x) xs) \<le> length xs" by simp
  then have "filter (\<lambda>y. y \<noteq> x) xs \<noteq> x # xs" by (metis impossible_Cons)
  then show ?thesis
    using until_loop_frame [of "[]" cont func t] find_loop_frame [of "[]" cont func t]
    by (simp add: each_eq each_indexed_eq remove_value_eq until_def find_first_def cbegin_def
          pop_def front_def pop_front_def)
qed

text \<open>
  C8. After \<^verbatim>\<open>remove(c, x)\<close> no element of the container equals \<open>x\<close>, and a second
  \<^verbatim>\<open>remove(c, x)\<close> leaves the container as the first one left it.
\<close>

theorem remove_value_twice:
  "\<exists>r. remove_value cont x = Inr r \<and> x \<notin> set (container r) \<and>
        (\<exists>r'. remove_value (container r) x = Inr r' \<and> container r' = container r)"
  by (simp add: remove_value_eq)

text \<open>
  C9. When \<^verbatim>\<open>find(c, p)\<close> returns an element \<open>e\<close>, \<^verbatim>\<open>remove(c, p)\<close> on the same
  container deletes it: the container it leaves is shorter and holds no element equal
  to \<open>e\<close> at all.
\<close>

theorem find_then_remove:
  assumes "find_first cont (logging p) calls = Inr f" and "returned f = Some e"
  shows "\<exists>r. remove_if cont (logging p) calls' = Inr r \<and>
             e \<notin> set (container r) \<and> length (container r) < length cont"
proof -
  from assms have "List.find p cont = Some e" by (auto simp: find_first_eq)
  then have e: "p e" "e \<in> set cont"
    by (auto simp: find_Some_iff)
  then have "length (filter (\<lambda>y. \<not> p y) cont) < length cont"
    by (metis length_filter_less)
  with e show ?thesis by (simp add: remove_if_eq)
qed

theorem find_then_remove_witness:
  "\<exists>f r. find_first [1, 2, 3, 4 :: int] (logging even) [] = Inr f \<and> returned f = Some 2 \<and>
         remove_if [1, 2, 3, 4 :: int] (logging even) [] = Inr r \<and>
         2 \<notin> set (container r) \<and> length (container r) < length [1, 2, 3, 4 :: int]"
proof -
  have f: "find_first [1, 2, 3, 4 :: int] (logging even) [] =
             Inr \<lparr>container = [1, 2, 3, 4], returned = Some 2, env = [1, 2]\<rparr>"
    by (simp add: find_first_eq)
  from find_then_remove [OF f, of 2 "[]"] f show ?thesis by auto
qed

text \<open>
  C3. \<^verbatim>\<open>until(c, p)\<close> returns true exactly when \<open>p\<close> holds at some index of the
  container. When \<open>i\<close> is the first such index, \<open>p\<close> is called on the elements at
  the indices \<open>0, \<dots>, i\<close> and on no other (the recorded calls are
  \<open>take (Suc i) cont\<close>); when there is none, it is called on every element and the
  result is false, as it is on the empty container.
\<close>

theorem until_short_circuits:
  "(\<exists>r. until cont (logging p) [] = Inr r \<and>
       (returned r \<longleftrightarrow> (\<exists>i<length cont. p (cont ! i))) \<and>
       (\<forall>i<length cont. p (cont ! i) \<and> (\<forall>j<i. \<not> p (cont ! j)) \<longrightarrow>
            env r = take (Suc i) cont) \<and>
       ((\<forall>i<length cont. \<not> p (cont ! i)) \<longrightarrow> env r = cont)) \<and>
   until [] (logging p) [] = Inr \<lparr>container = [], returned = False, env = []\<rparr>"
proof -
  let ?calls = "takeWhile (\<lambda>x. \<not> p x) cont @ take 1 (dropWhile (\<lambda>x. \<not> p x) cont)"
  have "(\<exists>x \<in> set cont. p x) \<longleftrightarrow> (\<exists>i<length cont. p (cont ! i))"
    by (metis in_set_conv_nth)
  moreover have "\<forall>i<length cont. p (cont ! i) \<and> (\<forall>j<i. \<not> p (cont ! j)) \<longrightarrow>
            ?calls = take (Suc i) cont"
    using searched_calls [of _ cont p] by blast
  moreover have "(\<forall>i<length cont. \<not> p (cont ! i)) \<longrightarrow> ?calls = cont"
    using unsearched_calls [of cont p] by blast
  ultimately show ?thesis by (simp add: until_eq)
qed

theorem until_short_circuits_witness:
  "\<exists>r. until [1, 3, 4, 6 :: int] (logging even) [] = Inr r \<and> returned r \<and> env r = [1, 3, 4]"
proof -
  from until_short_circuits [of "[1, 3, 4, 6 :: int]" even]
  obtain r where r: "until [1, 3, 4, 6 :: int] (logging even) [] = Inr r"
    and ret: "returned r \<longleftrightarrow> (\<exists>i<length [1, 3, 4, 6 :: int]. even ([1, 3, 4, 6 :: int] ! i))"
    and calls: "\<forall>i<length [1, 3, 4, 6 :: int].
        even ([1, 3, 4, 6 :: int] ! i) \<and> (\<forall>j<i. odd ([1, 3, 4, 6 :: int] ! j)) \<longrightarrow>
        env r = take (Suc i) [1, 3, 4, 6 :: int]"
    by blast
  have first: "(2::nat) < length [1, 3, 4, 6 :: int] \<and> even ([1, 3, 4, 6 :: int] ! 2) \<and>
      (\<forall>j<2. odd ([1, 3, 4, 6 :: int] ! j))"
    by (simp add: less_Suc_eq numeral_2_eq_2)
  then have "env r = take (Suc 2) [1, 3, 4, 6 :: int]" using calls by blast
  moreover have "returned r" using ret first by blast
  ultimately show ?thesis using r by simp
qed

text \<open>
  C5. \<^verbatim>\<open>find(c, p)\<close> returns the element at the smallest index at which \<open>p\<close>
  holds, and returns nothing exactly when \<open>p\<close> holds at no index, as on the empty
  container.
\<close>

theorem find_first_smallest_index:
  "(\<exists>r. find_first cont (logging p) [] = Inr r \<and>
       (returned r = None \<longleftrightarrow> \<not> (\<exists>i<length cont. p (cont ! i))) \<and>
       (\<forall>i<length cont. p (cont ! i) \<and> (\<forall>j<i. \<not> p (cont ! j)) \<longrightarrow>
            returned r = Some (cont ! i))) \<and>
   find_first [] (logging p) [] = Inr \<lparr>container = [], returned = None, env = []\<rparr>"
proof -
  have "List.find p cont = None \<longleftrightarrow> \<not> (\<exists>i<length cont. p (cont ! i))"
    by (auto simp: find_None_iff in_set_conv_nth)
  moreover have "\<forall>i<length cont. p (cont ! i) \<and> (\<forall>j<i. \<not> p (cont ! j)) \<longrightarrow>
            List.find p cont = Some (cont ! i)"
    using find_first_index [of _ cont p] by blast
  ultimately show ?thesis by (simp add: find_first_eq)
qed

theorem find_first_smallest_index_witness:
  "\<exists>r. find_first [1, 3, 4, 6 :: int] (logging even) [] = Inr r \<and> returned r = Some 4"
proof -
  from find_first_smallest_index [of "[1, 3, 4, 6 :: int]" even]
  obtain r where r: "find_first [1, 3, 4, 6 :: int] (logging even) [] = Inr r"
    and first: "\<forall>i<length [1, 3, 4, 6 :: int].
        even ([1, 3, 4, 6 :: int] ! i) \<and> (\<forall>j<i. odd ([1, 3, 4, 6 :: int] ! j)) \<longrightarrow>
        returned r = Some ([1, 3, 4, 6 :: int] ! i)"
    by blast
  have "(2::nat) < length [1, 3, 4, 6 :: int] \<and> even ([1, 3, 4, 6 :: int] ! 2) \<and>
      (\<forall>j<2. odd ([1, 3, 4, 6 :: int] ! j))"
    by (simp add: less_Suc_eq numeral_2_eq_2)
  then have "returned r = Some ([1, 3, 4, 6 :: int] ! 2)" using first by blast
  then show ?thesis using r by simp
qed

text \<open>
  C6. \<^verbatim>\<open>each(c, v)\<close> calls \<open>v\<close> once for each element, in order: the visitor's state
  afterwards is \<open>fold visitor cont s\<close>, and a visitor that records its calls has
  recorded the container itself. The indexed overload passes, with the element at
  position \<open>j\<close>, the \<^verbatim>\<open>int\<close> that \<open>j\<close> converts to; on a container of at most
  \<open>2 ^ 31\<close> elements these are the positions \<open>0, \<dots>, length cont - 1\<close> in ascending
  order.
\<close>

theorem each_visits_in_order:
  "each cont visitor s = Inr \<lparr>container = cont, returned = (), env = fold visitor cont s\<rparr> \<and>
   each cont recording [] = Inr \<lparr>container = cont, returned = (), env = cont\<rparr> \<and>
   each_indexed cont recording_indexed [] =
     Inr \<lparr>container = cont, returned = (),
          env = zip cont (map (\<lambda>j. sint (to_c_int (int j))) [0 ..< length cont])\<rparr> \<and>
   (length cont \<le> 2 ^ 31 \<longrightarrow>
      each_indexed cont recording_indexed [] =
        Inr \<lparr>container = cont, returned = (), env = zip cont (map int [0 ..< length cont])\<rparr>)"
proof -
  have idx: "map (\<lambda>j. sint (to_c_int (int j))) [0 ..< length cont] = map int [0 ..< length cont]"
    if "length cont \<le> 2 ^ 31"
  proof (rule map_cong [OF refl])
    fix j assume "j \<in> set [0 ..< length cont]"
    with that have "j < 2 ^ 31" by simp
    then show "sint (to_c_int (int j)) = int j" by (rule sint_to_c_int)
  qed
  have "length cont \<le> 2 ^ 31 \<longrightarrow>
      zip cont (map (\<lambda>j. sint (to_c_int (int j))) [0 ..< length cont]) =
      zip cont (map int [0 ..< length cont])"
  proof
    assume "length cont \<le> 2 ^ 31"
    then show "zip cont (map (\<lambda>j. sint (to_c_int (int j))) [0 ..< length cont]) =
      zip cont (map int [0 ..< length cont])"
      by (simp only: idx)
  qed
  then show ?thesis
    by (simp add: each_eq fold_recording each_indexed_calls)
qed

theorem each_visits_in_order_witness:
  "each_indexed ''abc'' recording_indexed [] =
     Inr \<lparr>container = ''abc'', returned = (),
          env = [(CHR ''a'', 0), (CHR ''b'', 1), (CHR ''c'', 2)]\<rparr>"
proof -
  have "length ''abc'' \<le> (2::nat) ^ 31" by simp
  then have "each_indexed ''abc'' recording_indexed [] =
        Inr \<lparr>container = ''abc'', returned = (), env = zip ''abc'' (map int [0 ..< length ''abc''])\<rparr>"
    by (rule each_visits_in_order [THEN conjunct2, THEN conjunct2, THEN conjunct2, THEN mp])
  moreover have "[0 ..< length ''abc''] = [0, 1, 2]" by (simp add: upt_rec)
  ultimately show ?thesis by simp
qed

text \<open>
  On a container of \<open>2 ^ 31 + 1\<close> elements the indices passed are not the positions:
  the last position, \<open>2 ^ 31\<close>, does not fit the \<^verbatim>\<open>int\<close> parameter and arrives as
  \<open>- (2 ^ 31)\<close>.
\<close>

theorem each_indexed_counterexample:
  "each_indexed (replicate 2147483649 (CHR ''a'')) recording_indexed [] \<noteq>
     Inr \<lparr>container = replicate 2147483649 (CHR ''a''), returned = (),
          env = zip (replicate 2147483649 (CHR ''a'')) (map int [0 ..< 2147483649])\<rparr> \<and>
   sint (to_c_int (distance 0 2147483648)) = - 2147483648"
proof
  show "each_indexed (replicate 2147483649 (CHR ''a'')) recording_indexed [] \<noteq>
     Inr \<lparr>container = replicate 2147483649 (CHR ''a''), returned = (),
          env = zip (replicate 2147483649 (CHR ''a'')) (map int [0 ..< 2147483649])\<rparr>"
    by (rule each_indexed_beyond_int) simp_all
  show "sint (to_c_int (distance 0 2147483648)) = - 2147483648"
    by (simp add: to_c_int_def distance_def)
qed

text \<open>
  C10. \<^verbatim>\<open>replace(text, from, to)\<close> leaves a text in which \<open>from\<close> does not occur as
  it is; otherwise it puts \<open>to\<close> in the place of the first occurrence of \<open>from\<close>
  (the one with the shortest text \<open>pre\<close> before it) and carries over what is before
  and what is after that occurrence, later occurrences included. \<^verbatim>\<open>type_name\<close> calls
  it once, on the name it has built, so that of the two \<^verbatim>\<open>> >\<close> of
  \<^verbatim>\<open>A<B<C<int> > >\<close> only the first is rewritten. The bound on the length of the
  text is that of a position that is not \<^verbatim>\<open>npos\<close>; no \<^verbatim>\<open>std::string\<close> is longer.
\<close>

theorem replace_first_occurrence_only:
  assumes "length text < 2 ^ 64 - 1"
  shows "(\<not> (\<exists>pre post. text = pre @ from @ post) \<longrightarrow> replace text from to = Inr text) \<and>
    (\<forall>pre post.
        text = pre @ from @ post \<and>
        (\<forall>pre' post'. text = pre' @ from @ post' \<longrightarrow> length pre \<le> length pre') \<longrightarrow>
        replace text from to = Inr (pre @ to @ post)) \<and>
    type_name own mangled is_const is_volatile is_lvalue_reference is_rvalue_reference =
      replace ((case own of Some demangled \<Rightarrow> demangled | None \<Rightarrow> mangled) @
               (if is_const then '' const'' else []) @
               (if is_volatile then '' volatile'' else []) @
               (if is_lvalue_reference then ''&''
                else if is_rvalue_reference then ''&&'' else []))
        ''> >'' ''>>'' \<and>
    type_name (Some ''A<B<C<int> > >'') mangled False False False False =
      Inr ''A<B<C<int>> >''"
proof (intro conjI)
  show "\<not> (\<exists>pre post. text = pre @ from @ post) \<longrightarrow> replace text from to = Inr text"
    using replace_absent [of "text" "from" to] by blast
  show "\<forall>pre post.
        text = pre @ from @ post \<and>
        (\<forall>pre' post'. text = pre' @ from @ post' \<longrightarrow> length pre \<le> length pre') \<longrightarrow>
        replace text from to = Inr (pre @ to @ post)"
    using replace_first [OF assms, of _ "from" _ to] by blast
  show "type_name own mangled is_const is_volatile is_lvalue_reference is_rvalue_reference =
      replace ((case own of Some demangled \<Rightarrow> demangled | None \<Rightarrow> mangled) @
               (if is_const then '' const'' else []) @
               (if is_volatile then '' volatile'' else []) @
               (if is_lvalue_reference then ''&''
                else if is_rvalue_reference then ''&&'' else []))
        ''> >'' ''>>''"
    by (simp add: type_name_def)
  show "type_name (Some ''A<B<C<int> > >'') mangled False False False False =
      Inr ''A<B<C<int>> >''"
    by (simp add: type_name_def replace_def str_find_def str_replace_def EOF_def npos_def)
qed

theorem replace_first_occurrence_only_witness:
  "replace ''> > >'' ''> >'' ''>>'' = Inr ''>> >'' \<and> replace ''abc'' ''> >'' ''>>'' = Inr ''abc''"
proof -
  have len: "length ''> > >'' < (2::nat) ^ 64 - 1" "length ''abc'' < (2::nat) ^ 64 - 1"
    by simp_all
  have occ: "''> > >'' = [] @ ''> >'' @ '' >'' \<and>
      (\<forall>pre' post'. ''> > >'' = pre' @ ''> >'' @ post' \<longrightarrow> length ([] :: string) \<le> length pre')"
    by simp
  have "replace ''> > >'' ''> >'' ''>>'' = Inr ([] @ ''>>'' @ '' >'')"
    using replace_first_occurrence_only [OF len(1), of "''> >''" "''>>''"] occ by blast
  moreover have "\<not> (\<exists>pre post. ''abc'' = pre @ ''> >'' @ post)"
  proof
    assume "\<exists>pre post. ''abc'' = pre @ ''> >'' @ post"
    then obtain pre post where "''abc'' = pre @ ''> >'' @ post" by blast
    then have "CHR ''>'' \<in> set ''abc''" by (metis in_set_conv_decomp append_Cons)
    then show False by simp
  qed
  then have "replace ''abc'' ''> >'' ''>>'' = Inr ''abc''"
    using replace_first_occurrence_only [OF len(2), of "''> >''" "''>>''"] by blast
  ultimately show ?thesis by simp
qed

end
